theory Spec2Isabelle
  imports Main "HOL-Library.Word" "HOL-Library.Sublist"
begin

unbundle bit_operations_syntax

section \<open>Data model of txscript/script.go\<close>

type_synonym byte = "8 word"

text \<open>
  The struct \<open>opcode\<close> (declared in opcode.go): the opcode byte and the length
  encoding the parser reads. The display name (used only in error texts and by the
  disassembler) and the execution function are left out: nothing below reads them.
\<close>

record opcode =
  op_value :: byte
  op_length :: int

text \<open>The struct \<open>parsedOpcode\<close>: an opcode of the table and the bytes it pushes.\<close>

record parsedOpcode =
  opcode :: opcode
  data :: "byte list"

text \<open>
  The error codes of \<open>scriptError\<close> that script.go produces on the paths modelled
  here. The description string built by \<open>fmt.Sprintf\<close> is diagnostic only.
\<close>

datatype ErrorCode = ErrMalformedPush | ErrInternal

subsection \<open>Constants\<close>

definition MaxPubKeysPerMultiSig :: int where
  "MaxPubKeysPerMultiSig = 20"

text \<open>
  Modelled from the spec: the opcode constants \<open>OP_*\<close> are declared in opcode.go,
  which is not among the sources. The spec names them (small-integer pushes 1 to 16,
  the fixed 20-byte push, HASH160, EQUAL, the return marker, the contiguous stake-tag
  range, the single-key and multi-key signature checks, the three prefixed pushes);
  the byte values are the consensus values of the Decred script language.
\<close>

definition OP_0 :: byte where "OP_0 = 0x00"
definition OP_DATA_1 :: byte where "OP_DATA_1 = 0x01"
definition OP_DATA_20 :: byte where "OP_DATA_20 = 0x14"
definition OP_DATA_75 :: byte where "OP_DATA_75 = 0x4b"
definition OP_PUSHDATA1 :: byte where "OP_PUSHDATA1 = 0x4c"
definition OP_PUSHDATA2 :: byte where "OP_PUSHDATA2 = 0x4d"
definition OP_PUSHDATA4 :: byte where "OP_PUSHDATA4 = 0x4e"
definition OP_1 :: byte where "OP_1 = 0x51"
definition OP_16 :: byte where "OP_16 = 0x60"
definition OP_RETURN :: byte where "OP_RETURN = 0x6a"
definition OP_EQUAL :: byte where "OP_EQUAL = 0x87"
definition OP_HASH160 :: byte where "OP_HASH160 = 0xa9"
definition OP_CHECKSIG :: byte where "OP_CHECKSIG = 0xac"
definition OP_CHECKSIGVERIFY :: byte where "OP_CHECKSIGVERIFY = 0xad"
definition OP_CHECKMULTISIG :: byte where "OP_CHECKMULTISIG = 0xae"
definition OP_CHECKMULTISIGVERIFY :: byte where "OP_CHECKMULTISIGVERIFY = 0xaf"
definition OP_SSTX :: byte where "OP_SSTX = 0xba"
definition OP_SSTXCHANGE :: byte where "OP_SSTXCHANGE = 0xbd"
definition OP_CHECKSIGALT :: byte where "OP_CHECKSIGALT = 0xbe"
definition OP_CHECKSIGALTVERIFY :: byte where "OP_CHECKSIGALTVERIFY = 0xbf"

text \<open>
  Modelled from the spec: the table \<open>opcodeArray\<close> of opcode.go, one entry per byte
  value. Its length field is 1 for an opcode without operand, the total instruction
  size for the fixed pushes \<open>OP_DATA_1 .. OP_DATA_75\<close> (opcode byte plus data), and
  -1, -2, -4 for the three pushes whose data length is a little-endian prefix of that
  many bytes.
\<close>

definition opcodeArray :: "byte \<Rightarrow> opcode" where
  "opcodeArray v =
     \<lparr> op_value = v,
       op_length =
         (if OP_DATA_1 \<le> v \<and> v \<le> OP_DATA_75 then int (unat v) + 1
          else if v = OP_PUSHDATA1 then - 1
          else if v = OP_PUSHDATA2 then - 2
          else if v = OP_PUSHDATA4 then - 4
          else 1) \<rparr>"

subsection \<open>Go slices\<close>

text \<open>
  \<open>s[lo:hi]\<close> for \<open>lo \<le> hi \<le> len(s)\<close>. Go panics outside that range; every use
  below is behind the source's own bounds check.
\<close>

definition slice :: "'a list \<Rightarrow> nat \<Rightarrow> nat \<Rightarrow> 'a list" where
  "slice s lo hi = take (hi - lo) (drop lo s)"

section \<open>Classification predicates\<close>

definition isSmallInt :: "byte \<Rightarrow> bool" where
  "isSmallInt op = (op = OP_0 \<or> (op \<ge> OP_1 \<and> op \<le> OP_16))"

text \<open>The \<open>for ... range\<close> loop of \<open>isPushOnly\<close>, with its early return.\<close>

fun isPushOnly :: "parsedOpcode list \<Rightarrow> bool" where
  "isPushOnly [] = True"
| "isPushOnly (pop # pops) =
     (if op_value (opcode pop) > OP_16 then False else isPushOnly pops)"

definition isStakeOpcode :: "byte \<Rightarrow> bool" where
  "isStakeOpcode op = (op \<ge> OP_SSTX \<and> op \<le> OP_SSTXCHANGE)"

definition isScriptHash :: "parsedOpcode list \<Rightarrow> bool" where
  "isScriptHash pops =
     (length pops = 3 \<and>
      op_value (opcode (pops ! 0)) = OP_HASH160 \<and>
      op_value (opcode (pops ! 1)) = OP_DATA_20 \<and>
      op_value (opcode (pops ! 2)) = OP_EQUAL)"

definition isStakeScriptHash :: "parsedOpcode list \<Rightarrow> bool" where
  "isStakeScriptHash pops =
     (length pops = 4 \<and>
      isStakeOpcode (op_value (opcode (pops ! 0))) \<and>
      op_value (opcode (pops ! 1)) = OP_HASH160 \<and>
      op_value (opcode (pops ! 2)) = OP_DATA_20 \<and>
      op_value (opcode (pops ! 3)) = OP_EQUAL)"

definition isAnyKindOfScriptHash :: "parsedOpcode list \<Rightarrow> bool" where
  "isAnyKindOfScriptHash pops = (isScriptHash pops \<or> isStakeScriptHash pops)"

section \<open>Parsing\<close>

text \<open>
  The inner \<open>switch op.length\<close> of \<open>parseScriptTemplate\<close>: the little-endian
  length \<open>l\<close> read at offset \<open>off\<close>, a \<open>uint\<close> (64 bits), or \<open>None\<close> for the
  \<open>default\<close> case, which returns the malformed-push error.
\<close>

definition parseScriptTemplate_length :: "int \<Rightarrow> byte list \<Rightarrow> nat \<Rightarrow> 64 word option" where
  "parseScriptTemplate_length len script off =
     (if len = - 1 then
        Some (ucast (script ! off))
      else if len = - 2 then
        Some (push_bit 8 (ucast (script ! (off + 1))) OR
              ucast (script ! off))
      else if len = - 4 then
        Some (push_bit 24 (ucast (script ! (off + 3))) OR
              push_bit 16 (ucast (script ! (off + 2))) OR
              push_bit 8 (ucast (script ! (off + 1))) OR
              ucast (script ! off))
      else None)"

text \<open>
  One pass through the body of the \<open>for\<close> loop of \<open>parseScriptTemplate\<close> at offset
  \<open>i < len(script)\<close>: either the malformed-push error of an early return, or the
  instruction appended to \<open>retScript\<close> together with the new value of \<open>i\<close>.
  \<open>int(l)\<close> is the two's-complement reading of \<open>l\<close>; with 64 bits it is never
  negative for a prefix of at most four bytes. (With a 32-bit \<open>uint\<close> a length of
  \<open>2 ^ 31\<close> or more is negative and fails the second half of the test; here it fails
  the first half, as no buffer is that long. The result is the same.) When no case of
  the outer \<open>switch\<close> matches (a table length of 0) the instruction is appended and
  \<open>i\<close> stays where it is.
\<close>

definition parseScriptTemplate_body ::
    "(byte \<Rightarrow> opcode) \<Rightarrow> byte list \<Rightarrow> nat \<Rightarrow> ErrorCode + (parsedOpcode \<times> nat)" where
  "parseScriptTemplate_body opcodes script i =
     (let instr = script ! i;
          op = opcodes instr;
          pop = \<lparr> opcode = op, data = [] \<rparr>
      in
        if op_length op = 1 then Inr (pop, i + 1)
        else if op_length op > 1 then
          (if int (length (drop i script)) < op_length op then Inl ErrMalformedPush
           else Inr (pop \<lparr> data := slice script (i + 1) (nat (int i + op_length op)) \<rparr>,
                     nat (int i + op_length op)))
        else if op_length op < 0 then
          (let off = i + 1 in
             if int (length (drop off script)) < - op_length op then Inl ErrMalformedPush
             else
               (case parseScriptTemplate_length (op_length op) script off of
                  None \<Rightarrow> Inl ErrMalformedPush
                | Some l \<Rightarrow>
                    (let off' = nat (int off + - op_length op) in
                       if sint l > int (length (drop off' script)) \<or> sint l < 0
                       then Inl ErrMalformedPush
                       else Inr (pop \<lparr> data := slice script off' (nat (int off' + sint l)) \<rparr>,
                                 nat (int i + (1 - op_length op + sint l))))))
        else Inr (pop, i))"

text \<open>
  The loop itself. A table with a length of 0 makes the source loop forever on the same
  offset; that is the value \<open>None\<close> here.
\<close>

partial_function (option) parseScriptTemplate_loop ::
    "(byte \<Rightarrow> opcode) \<Rightarrow> byte list \<Rightarrow> nat \<Rightarrow> parsedOpcode list
       \<Rightarrow> (parsedOpcode list \<times> ErrorCode option) option" where
  "parseScriptTemplate_loop opcodes script i retScript =
     (if i < length script then
        (case parseScriptTemplate_body opcodes script i of
           Inl err \<Rightarrow> Some (retScript, Some err)
         | Inr (pop, i') \<Rightarrow> parseScriptTemplate_loop opcodes script i' (retScript @ [pop]))
      else Some (retScript, None))"

declare parseScriptTemplate_loop.simps [code]

definition parseScriptTemplate ::
    "byte list \<Rightarrow> (byte \<Rightarrow> opcode) \<Rightarrow> (parsedOpcode list \<times> ErrorCode option) option" where
  "parseScriptTemplate script opcodes = parseScriptTemplate_loop opcodes script 0 []"

definition parseScript :: "byte list \<Rightarrow> (parsedOpcode list \<times> ErrorCode option) option" where
  "parseScript script = parseScriptTemplate script opcodeArray"

text \<open>
  Modelled from the spec: the method \<open>parsedOpcode.bytes\<close> of opcode.go, which is not
  among the sources. It gives the byte form of one instruction: the opcode byte, for a
  prefixed push the little-endian prefix of that many bytes holding the data length,
  then the data. It fails with an internal error when the result is inconsistent with
  the length of the opcode: data on an opcode without operand, a fixed push whose size
  is not the declared one, a data length that the prefix cannot hold, or a length
  encoding that is none of these.
\<close>

definition bytes :: "parsedOpcode \<Rightarrow> ErrorCode + byte list" where
  "bytes pop =
     (let len = op_length (opcode pop);
          v = op_value (opcode pop);
          l = length (data pop)
      in
        if len = 1 then (if l \<noteq> 0 then Inl ErrInternal else Inr [v])
        else
          (let pre =
                 (if len = - 1 then [word_of_nat l]
                  else if len = - 2 then [word_of_nat l, word_of_nat (l div 2 ^ 8)]
                  else if len = - 4 then
                    [word_of_nat l, word_of_nat (l div 2 ^ 8),
                     word_of_nat (l div 2 ^ 16), word_of_nat (l div 2 ^ 24)]
                  else []) :: byte list;
               nbytes =
                 (if len = - 1 then int (unat (pre ! 0)) + 2
                  else if len = - 2 then
                    int (unat (pre ! 0) + 2 ^ 8 * unat (pre ! 1)) + 3
                  else if len = - 4 then
                    int (unat (pre ! 0) + 2 ^ 8 * unat (pre ! 1) +
                         2 ^ 16 * unat (pre ! 2) + 2 ^ 24 * unat (pre ! 3)) + 5
                  else len);
               retbytes = v # pre @ data pop
           in if int (length retbytes) \<noteq> nbytes then Inl ErrInternal else Inr retbytes))"

text \<open>The loop of \<open>unparseScript\<close>: the first failing instruction ends it.\<close>

fun unparseScript_loop :: "parsedOpcode list \<Rightarrow> byte list \<Rightarrow> ErrorCode + byte list" where
  "unparseScript_loop [] script = Inr script"
| "unparseScript_loop (pop # pops) script =
     (case bytes pop of
        Inl err \<Rightarrow> Inl err
      | Inr b \<Rightarrow> unparseScript_loop pops (script @ b))"

definition unparseScript :: "parsedOpcode list \<Rightarrow> ErrorCode + byte list" where
  "unparseScript pops = unparseScript_loop pops []"

text \<open>
  The exported predicates parse first. They return whenever \<open>parseScript\<close> does, so
  their results are options as well.
\<close>

definition IsPayToScriptHash :: "byte list \<Rightarrow> bool option" where
  "IsPayToScriptHash script =
     (case parseScript script of
        None \<Rightarrow> None
      | Some (pops, err) \<Rightarrow> if err \<noteq> None then Some False else Some (isScriptHash pops))"

definition IsPushOnlyScript :: "byte list \<Rightarrow> bool option" where
  "IsPushOnlyScript script =
     (case parseScript script of
        None \<Rightarrow> None
      | Some (pops, err) \<Rightarrow> if err \<noteq> None then Some False else Some (isPushOnly pops))"

section \<open>Canonical pushes and removal by data\<close>





section \<open>Counting signature operations\<close>

definition asSmallInt :: "byte \<Rightarrow> int" where
  "asSmallInt op = (if op = OP_0 then 0 else uint (op - (OP_1 - 1)))"

text \<open>
  The \<open>for i, pop := range pops\<close> loop of \<open>getSigOpCount\<close>, with the index \<open>i\<close> and
  the counter \<open>nSigs\<close> as arguments. \<open>nSigs\<close> is a Go \<open>int\<close>; it grows by at most
  20 for each instruction, so it stays far from the 64-bit limit and is an \<open>int\<close> here.
\<close>

function getSigOpCount_loop :: "parsedOpcode list \<Rightarrow> bool \<Rightarrow> nat \<Rightarrow> int \<Rightarrow> int" where
  "getSigOpCount_loop pops precise i nSigs =
     (if i < length pops then
        getSigOpCount_loop pops precise (i + 1)
          (let v = op_value (opcode (pops ! i)) in
             if v = OP_CHECKSIG \<or> v = OP_CHECKSIGVERIFY \<or>
                v = OP_CHECKSIGALT \<or> v = OP_CHECKSIGALTVERIFY
             then nSigs + 1
             else if v = OP_CHECKMULTISIG \<or> v = OP_CHECKMULTISIGVERIFY then
               (if precise \<and> i > 0 \<and>
                   op_value (opcode (pops ! (i - 1))) \<ge> OP_1 \<and>
                   op_value (opcode (pops ! (i - 1))) \<le> OP_16
                then nSigs + asSmallInt (op_value (opcode (pops ! (i - 1))))
                else nSigs + MaxPubKeysPerMultiSig)
             else nSigs)
      else nSigs)"
  by pat_completeness auto
termination
  by (relation "measure (\<lambda>(pops, precise, i, nSigs). length pops - i)") auto

definition getSigOpCount :: "parsedOpcode list \<Rightarrow> bool \<Rightarrow> int" where
  "getSigOpCount pops precise = getSigOpCount_loop pops precise 0 0"

definition GetSigOpCount :: "byte list \<Rightarrow> int option" where
  "GetSigOpCount script =
     (case parseScript script of
        None \<Rightarrow> None
      | Some (pops, _) \<Rightarrow> Some (getSigOpCount pops False))"

definition GetPreciseSigOpCount :: "byte list \<Rightarrow> byte list \<Rightarrow> bool \<Rightarrow> int option" where
  "GetPreciseSigOpCount scriptSig scriptPubKey bip16 =
     (case parseScript scriptPubKey of
        None \<Rightarrow> None
      | Some (pops, _) \<Rightarrow>
          if \<not> (bip16 \<and> isScriptHash pops) then Some (getSigOpCount pops True)
          else
            (case parseScript scriptSig of
               None \<Rightarrow> None
             | Some (sigPops, err) \<Rightarrow>
                 if err \<noteq> None then Some 0
                 else if \<not> isPushOnly sigPops \<or> length sigPops = 0 then Some 0
                 else
                   (let shScript = data (sigPops ! (length sigPops - 1)) in
                      if length shScript = 0 then Some 0
                      else
                        (case parseScript shScript of
                           None \<Rightarrow> None
                         | Some (shPops, _) \<Rightarrow> Some (getSigOpCount shPops True)))))"

section \<open>Unspendable outputs\<close>

text \<open>\<open>amount\<close> is an \<open>int64\<close>; the function only compares it with 0.\<close>

definition IsUnspendable :: "64 word \<Rightarrow> byte list \<Rightarrow> bool option" where
  "IsUnspendable amount pkScript =
     (if amount = 0 then Some True
      else
        (case parseScript pkScript of
           None \<Rightarrow> None
         | Some (pops, err) \<Rightarrow>
             if err \<noteq> None then Some True
             else Some (length pops > 0 \<and> op_value (opcode (pops ! 0)) = OP_RETURN)))"

section \<open>The decoding the specification describes\<close>

text \<open>
  The definitions of this section follow the words of the specification, not the code:
  they say where an instruction starts, when its push cannot be satisfied by the rest
  of the buffer, and which offsets decoding reaches. The theorems below compare
  \<open>parseScript\<close> with them.
\<close>

text \<open>The value of a little-endian byte string.\<close>

fun le_nat :: "byte list \<Rightarrow> nat" where
  "le_nat [] = 0"
| "le_nat (x # xs) = unat x + 2 ^ 8 * le_nat xs"

text \<open>The size of the length prefix of the prefixed push starting at offset \<open>i\<close>.\<close>

definition spec_prefixLen :: "byte list \<Rightarrow> nat \<Rightarrow> nat" where
  "spec_prefixLen b i = nat (- op_length (opcodeArray (b ! i)))"

text \<open>The data length \<open>l\<close> that the prefix declares.\<close>

definition spec_pushLen :: "byte list \<Rightarrow> nat \<Rightarrow> int" where
  "spec_pushLen b i = int (le_nat (take (spec_prefixLen b i) (drop (i + 1) b)))"

text \<open>
  The push of the instruction at offset \<open>i\<close> cannot be satisfied: a fixed push with
  fewer bytes left, from the opcode byte on, than its length; or a prefixed push whose
  prefix is cut short or whose declared length \<open>l\<close> fails
  \<open>0 \<le> l \<le>\<close> bytes left after the prefix.
\<close>

definition spec_malformedPush :: "byte list \<Rightarrow> nat \<Rightarrow> bool" where
  "spec_malformedPush b i =
     (let len = op_length (opcodeArray (b ! i)) in
        (len > 1 \<and> int (length b - i) < len) \<or>
        (len < 0 \<and>
           (length b - (i + 1) < spec_prefixLen b i \<or>
            \<not> (0 \<le> spec_pushLen b i \<and>
               spec_pushLen b i \<le> int (length b - (i + 1 + spec_prefixLen b i))))))"

text \<open>The number of bytes of a satisfiable instruction at offset \<open>i\<close>.\<close>

definition spec_instrSize :: "byte list \<Rightarrow> nat \<Rightarrow> nat" where
  "spec_instrSize b i =
     (let len = op_length (opcodeArray (b ! i)) in
        if len < 0 then 1 + spec_prefixLen b i + nat (spec_pushLen b i) else nat len)"

text \<open>The decoded instruction at offset \<open>i\<close>: its table entry and its data bytes.\<close>

definition spec_instr :: "byte list \<Rightarrow> nat \<Rightarrow> parsedOpcode" where
  "spec_instr b i =
     (let len = op_length (opcodeArray (b ! i)) in
        \<lparr> opcode = opcodeArray (b ! i),
          data =
            (if len < 0
             then take (nat (spec_pushLen b i)) (drop (i + 1 + spec_prefixLen b i) b)
             else take (nat len - 1) (drop (i + 1) b)) \<rparr>)"

text \<open>
  \<open>spec_decodes b i pops\<close>: decoding \<open>b\<close> from its start reaches offset \<open>i\<close>, and
  \<open>pops\<close> are the instructions decoded on the way, in order.
\<close>

inductive spec_decodes :: "byte list \<Rightarrow> nat \<Rightarrow> parsedOpcode list \<Rightarrow> bool" for b where
  start: "spec_decodes b 0 []"
| step: "spec_decodes b i pops \<Longrightarrow> i < length b \<Longrightarrow> \<not> spec_malformedPush b i \<Longrightarrow>
         spec_decodes b (i + spec_instrSize b i) (pops @ [spec_instr b i])"

text \<open>The number \<open>k\<close> that the small-integer opcode \<open>OP_k\<close> stands for.\<close>

definition spec_smallIntValue :: "byte \<Rightarrow> int" where
  "spec_smallIntValue v = int (unat v) - int (unat OP_1) + 1"

text \<open>
  What the instruction at position \<open>i\<close> of a sequence adds to the count of signature
  operations: 1 for a single-key signature check; for a multi-key check the value of
  the instruction just before it when counting precisely and that instruction is one
  of \<open>OP_1 .. OP_16\<close>, and 20 otherwise; 0 for every other opcode.
\<close>

definition spec_sigOps :: "parsedOpcode list \<Rightarrow> bool \<Rightarrow> nat \<Rightarrow> int" where
  "spec_sigOps pops precise i =
     (let v = op_value (opcode (pops ! i)) in
        if v \<in> {OP_CHECKSIG, OP_CHECKSIGVERIFY, OP_CHECKSIGALT, OP_CHECKSIGALTVERIFY} then 1
        else if v \<in> {OP_CHECKMULTISIG, OP_CHECKMULTISIGVERIFY} then
          (if precise \<and> 0 < i \<and>
              op_value (opcode (pops ! (i - 1))) \<in> {OP_1 .. OP_16}
           then spec_smallIntValue (op_value (opcode (pops ! (i - 1))))
           else 20)
        else 0)"






section \<open>Little-endian lengths\<close>

lemma sint_small: "n < 2 ^ 32 \<Longrightarrow> sint (word_of_nat n :: 64 word) = int n"
proof -
  assume n: "n < 2 ^ 32"
  have "sint (word_of_int (int n) :: 64 word) = signed_take_bit 63 (int n)"
    by (simp only: sint_sbintrunc') simp
  also have "\<dots> = int n"
    using n by (intro signed_take_bit_int_eq_self) auto
  finally show ?thesis by simp
qed

lemma unat_byte_lt: "unat (b::byte) < 256"
  using unsigned_less[of b, where 'a=nat] by simp

lemma le8_word: "(ucast (b0::byte) :: 64 word) = word_of_nat (unat b0)"
  by simp

lemma le16_word:
  "(push_bit 8 (ucast (b1::byte)) OR ucast (b0::byte) :: 64 word) =
     word_of_nat (unat b0 + 2 ^ 8 * unat b1)"
proof -
  have "(push_bit 8 (ucast b1) OR ucast b0 :: 64 word) = push_bit 8 (ucast b1) + ucast b0"
    by (rule disjunctive_add_eq_or[symmetric]) (auto simp: bit_eq_iff bit_simps dest: bit_imp_le_length)
  also have "\<dots> = word_of_nat (unat b0 + 2 ^ 8 * unat b1)"
    by (simp add: push_bit_eq_mult)
  finally show ?thesis .
qed

lemma le32_word:
  "(push_bit 24 (ucast (b3::byte)) OR push_bit 16 (ucast (b2::byte)) OR
    push_bit 8 (ucast (b1::byte)) OR ucast (b0::byte) :: 64 word) =
     word_of_nat (unat b0 + 2 ^ 8 * unat b1 + 2 ^ 16 * unat b2 + 2 ^ 24 * unat b3)"
proof -
  have a: "(push_bit 8 (ucast b1) OR ucast b0 :: 64 word) = push_bit 8 (ucast b1) + ucast b0"
    by (rule disjunctive_add_eq_or[symmetric]) (auto simp: bit_eq_iff bit_simps dest: bit_imp_le_length)
  have b: "(push_bit 16 (ucast b2) OR (push_bit 8 (ucast b1) OR ucast b0) :: 64 word) = push_bit 16 (ucast b2) + (push_bit 8 (ucast b1) OR ucast b0)"
    by (rule disjunctive_add_eq_or[symmetric]) (auto simp: bit_eq_iff bit_simps dest: bit_imp_le_length)
  have c: "(push_bit 24 (ucast b3) OR (push_bit 16 (ucast b2) OR (push_bit 8 (ucast b1) OR ucast b0)) :: 64 word) = push_bit 24 (ucast b3) + (push_bit 16 (ucast b2) OR (push_bit 8 (ucast b1) OR ucast b0))"
    by (rule disjunctive_add_eq_or[symmetric]) (auto simp: bit_eq_iff bit_simps dest: bit_imp_le_length)
  have "(push_bit 24 (ucast b3) OR push_bit 16 (ucast b2) OR push_bit 8 (ucast b1) OR ucast b0 :: 64 word)
      = push_bit 24 (ucast b3) + (push_bit 16 (ucast b2) + (push_bit 8 (ucast b1) + ucast b0))"
    by (subst c, subst b, subst a) (rule refl)
  also have "\<dots> = word_of_nat (unat b0 + 2 ^ 8 * unat b1 + 2 ^ 16 * unat b2 + 2 ^ 24 * unat b3)"
    by (simp add: push_bit_eq_mult)
  finally show ?thesis .
qed

lemma sint_le8: "sint (ucast (b0::byte) :: 64 word) = int (unat b0)"
  unfolding le8_word using unat_byte_lt[of b0] by (intro sint_small) simp

lemma sint_le16:
  "sint (push_bit 8 (ucast (b1::byte)) OR ucast (b0::byte) :: 64 word) =
     int (unat b0 + 2 ^ 8 * unat b1)"
  unfolding le16_word using unat_byte_lt[of b0] unat_byte_lt[of b1]
  by (intro sint_small) simp

lemma sint_le32:
  "sint (push_bit 24 (ucast (b3::byte)) OR push_bit 16 (ucast (b2::byte)) OR
         push_bit 8 (ucast (b1::byte)) OR ucast (b0::byte) :: 64 word) =
     int (unat b0 + 2 ^ 8 * unat b1 + 2 ^ 16 * unat b2 + 2 ^ 24 * unat b3)"
  unfolding le32_word
  using unat_byte_lt[of b0] unat_byte_lt[of b1] unat_byte_lt[of b2] unat_byte_lt[of b3]
  by (intro sint_small) simp

lemma byte_eqI: "m mod 256 = unat (b::byte) \<Longrightarrow> (word_of_nat m :: byte) = b"
proof -
  assume h: "m mod 256 = unat b"
  have "(word_of_nat m :: byte) = word_of_nat (unat b)"
    unfolding word_of_nat_eq_iff using h unat_byte_lt[of b] by (simp add: take_bit_eq_mod)
  then show ?thesis by simp
qed

lemma le_digit_step:
  fixes a m :: nat
  assumes "a < 256"
  shows "(a + 256 * m) mod 256 = a" "(a + 256 * m) div 256 = m"
  using assms by simp_all

lemma le_digits:
  fixes a b c d :: nat
  assumes "a < 256" "b < 256" "c < 256" "d < 256"
  shows "(a + 256 * b + 65536 * c + 16777216 * d) mod 256 = a"
    "(a + 256 * b + 65536 * c + 16777216 * d) div 256 mod 256 = b"
    "(a + 256 * b + 65536 * c + 16777216 * d) div 65536 mod 256 = c"
    "(a + 256 * b + 65536 * c + 16777216 * d) div 16777216 mod 256 = d"
proof -
  let ?L = "a + 256 * b + 65536 * c + 16777216 * d"
  have nest: "?L = a + 256 * (b + 256 * (c + 256 * d))" by simp
  have d1: "?L div 256 = b + 256 * (c + 256 * d)"
    by (subst nest) (rule le_digit_step(2)[OF assms(1)])
  have "?L div 65536 = ?L div 256 div 256" by (simp add: div_mult2_eq[symmetric])
  then have d2: "?L div 65536 = c + 256 * d"
    by (simp only: d1 le_digit_step(2)[OF assms(2)])
  have "?L div 16777216 = ?L div 65536 div 256" by (simp add: div_mult2_eq[symmetric])
  then have d3: "?L div 16777216 = d"
    using assms(3) by (simp only: d2 le_digit_step(2)[OF assms(3)])
  show "?L mod 256 = a" by (subst nest) (rule le_digit_step(1)[OF assms(1)])
  show "?L div 256 mod 256 = b" by (simp only: d1 le_digit_step(1)[OF assms(2)])
  show "?L div 65536 mod 256 = c" by (simp only: d2 le_digit_step(1)[OF assms(3)])
  show "?L div 16777216 mod 256 = d" using assms(4) by (simp only: d3 mod_less)
qed

lemma le_bytes32:
  fixes b0 b1 b2 b3 :: byte
  shows "(word_of_nat (unat b0 + 2 ^ 8 * unat b1 + 2 ^ 16 * unat b2 + 2 ^ 24 * unat b3) :: byte) = b0" 
     "(word_of_nat ((unat b0 + 2 ^ 8 * unat b1 + 2 ^ 16 * unat b2 + 2 ^ 24 * unat b3) div 2 ^ 8) :: byte) = b1"
     "(word_of_nat ((unat b0 + 2 ^ 8 * unat b1 + 2 ^ 16 * unat b2 + 2 ^ 24 * unat b3) div 2 ^ 16) :: byte) = b2" 
     "(word_of_nat ((unat b0 + 2 ^ 8 * unat b1 + 2 ^ 16 * unat b2 + 2 ^ 24 * unat b3) div 2 ^ 24) :: byte) = b3"
proof -
  note D = le_digits[OF unat_byte_lt[of b0] unat_byte_lt[of b1] unat_byte_lt[of b2] unat_byte_lt[of b3]]
  show "(word_of_nat (unat b0 + 2 ^ 8 * unat b1 + 2 ^ 16 * unat b2 + 2 ^ 24 * unat b3) :: byte) = b0"
    by (rule byte_eqI) (use D(1) in simp)
  show "(word_of_nat ((unat b0 + 2 ^ 8 * unat b1 + 2 ^ 16 * unat b2 + 2 ^ 24 * unat b3) div 2 ^ 8) :: byte) = b1"
    by (rule byte_eqI) (use D(2) in simp)
  show "(word_of_nat ((unat b0 + 2 ^ 8 * unat b1 + 2 ^ 16 * unat b2 + 2 ^ 24 * unat b3) div 2 ^ 16) :: byte) = b2"
    by (rule byte_eqI) (use D(3) in simp)
  show "(word_of_nat ((unat b0 + 2 ^ 8 * unat b1 + 2 ^ 16 * unat b2 + 2 ^ 24 * unat b3) div 2 ^ 24) :: byte) = b3"
    by (rule byte_eqI) (use D(4) in simp)
qed

lemma le_bytes16:
  fixes b0 b1 :: byte
  shows "(word_of_nat (unat b0 + 2 ^ 8 * unat b1) :: byte) = b0" 
     "(word_of_nat ((unat b0 + 2 ^ 8 * unat b1) div 2 ^ 8) :: byte) = b1"
  using le_bytes32(1,2)[of b0 b1 0 0] by simp_all

section \<open>One instruction\<close>

lemma opcodeArray_length:
  "op_length (opcodeArray v) =
     (if OP_DATA_1 \<le> v \<and> v \<le> OP_DATA_75 then int (unat v) + 1
      else if v = OP_PUSHDATA1 then - 1
      else if v = OP_PUSHDATA2 then - 2
      else if v = OP_PUSHDATA4 then - 4
      else 1)"
  unfolding opcodeArray_def by (rule opcode.select_convs)

lemma opcodeArray_length_cases:
  "op_length (opcodeArray v) = 1 \<or>
   (1 < op_length (opcodeArray v) \<and> op_length (opcodeArray v) \<le> 76) \<or>
   op_length (opcodeArray v) = - 1 \<or> op_length (opcodeArray v) = - 2 \<or>
   op_length (opcodeArray v) = - 4"
proof (cases "OP_DATA_1 \<le> v \<and> v \<le> OP_DATA_75")
  case True
  then have "unat v \<le> 75" "1 \<le> unat v"
    by (simp_all add: OP_DATA_75_def OP_DATA_1_def word_le_nat_alt)
  moreover have "op_length (opcodeArray v) = int (unat v) + 1"
    using True by (simp add: opcodeArray_length)
  ultimately show ?thesis by linarith
next
  case False
  have "op_length (opcodeArray v) =
      (if v = OP_PUSHDATA1 then - 1 else if v = OP_PUSHDATA2 then - 2
       else if v = OP_PUSHDATA4 then - 4 else 1)"
    by (subst opcodeArray_length) (simp only: False if_False)
  then show ?thesis by (simp split: if_splits)
qed

lemma opcodeArray_value [simp]: "op_value (opcodeArray v) = v"
  by (simp add: opcodeArray_def)

lemma take1_drop: "k < length b \<Longrightarrow> take (Suc 0) (drop k b) = [b ! k]"
  by (simp add: take_Suc_conv_app_nth)

lemma take2_drop: "k + 1 < length b \<Longrightarrow> take 2 (drop k b) = [b ! k, b ! (k + 1)]"
  by (simp add: numeral_2_eq_2 take_Suc_conv_app_nth)

lemma take4_drop:
  "k + 3 < length b \<Longrightarrow> take 4 (drop k b) = [b ! k, b ! (k + 1), b ! (k + 2), b ! (k + 3)]"
  by (simp add: eval_nat_numeral take_Suc_conv_app_nth)

lemma length_spec:
  assumes "len = - 1 \<or> len = - 2 \<or> len = - 4" "off + nat (- len) \<le> length s"
  shows "\<exists>l. parseScriptTemplate_length len s off = Some l \<and>
             sint l = int (le_nat (take (nat (- len)) (drop off s)))"
proof -
  consider (p1) "len = - 1" | (p2) "len = - 2" | (p4) "len = - 4" using assms(1) by blast
  then show ?thesis
  proof cases
    case p1
    then have "take (nat (- len)) (drop off s) = [s ! off]"
      using assms(2) take1_drop[of off s] by simp
    then show ?thesis using p1 by (simp add: parseScriptTemplate_length_def sint_le8)
  next
    case p2
    then have "take (nat (- len)) (drop off s) = [s ! off, s ! (off + 1)]"
      using assms(2) take2_drop[of off s] by simp
    then show ?thesis using p2 sint_le16[of "s ! (off + 1)" "s ! off"]
      by (simp add: parseScriptTemplate_length_def)
  next
    case p4
    then have "take (nat (- len)) (drop off s) = [s ! off, s ! (off + 1), s ! (off + 2), s ! (off + 3)]"
      using assms(2) take4_drop[of off s] by simp
    then show ?thesis using p4 sint_le32[of "s ! (off + 3)" "s ! (off + 2)" "s ! (off + 1)" "s ! off"]
      by (simp add: parseScriptTemplate_length_def)
  qed
qed

lemma body_spec:
  assumes "i < length b"
  shows "parseScriptTemplate_body opcodeArray b i =
           (if spec_malformedPush b i then Inl ErrMalformedPush
            else Inr (spec_instr b i, i + spec_instrSize b i))"
proof -
  let ?len = "op_length (opcodeArray (b ! i))"
  consider (one) "?len = 1" | (fixed) "1 < ?len"
    | (pre) "?len = - 1 \<or> ?len = - 2 \<or> ?len = - 4"
    using opcodeArray_length_cases[of "b ! i"] by blast
  then show ?thesis
  proof cases
    case one
    then show ?thesis
      by (simp add: parseScriptTemplate_body_def spec_malformedPush_def spec_instr_def spec_instrSize_def)
  next
    case fixed
    then show ?thesis using assms
      by (auto simp add: parseScriptTemplate_body_def spec_malformedPush_def spec_instr_def spec_instrSize_def slice_def Let_def nat_add_distrib)
  next
    case pre
    then have neg: "?len < 0" "\<not> 1 < ?len" "?len \<noteq> 1" by auto
    define n where "n = spec_prefixLen b i"
    have n: "int n = - ?len" "nat (- ?len) = n" using neg by (simp_all add: n_def spec_prefixLen_def)
    have c1: "(int (length (drop (i + 1) b)) < - ?len) = (length b - (i + 1) < n)"
      using n(1) assms by auto
    have c2: "nat (int (i + 1) + - ?len) = i + 1 + n"
      using n(1) by simp
    show ?thesis
    proof (cases "length b - (i + 1) < n")
      case True
      then have "spec_malformedPush b i"
        using neg by (simp add: spec_malformedPush_def n_def)
      then show ?thesis using neg c1 True
        by (simp only: parseScriptTemplate_body_def Let_def if_False if_True)
    next
      case False
      then have "(i + 1) + nat (- ?len) \<le> length b" using n assms by simp
      from length_spec[OF pre this] obtain l where
        l: "parseScriptTemplate_length ?len b (i + 1) = Some l"
           "sint l = spec_pushLen b i"
        by (auto simp: spec_pushLen_def n_def n)
      let ?l = "spec_pushLen b i"
      have nn: "0 \<le> ?l" by (simp add: spec_pushLen_def)
      have c3: "(int (length (drop (i + 1 + n) b)) < ?l \<or> ?l < 0)
                  = (\<not> ?l \<le> int (length b - (i + 1 + n)))"
        using nn by auto
      have c4: "nat (int i + (1 - ?len + ?l)) = i + (1 + n + nat ?l)"
        using n(1) nn by (simp add: nat_add_distrib)
      have c5: "slice b (i + 1 + n) (nat (int (i + 1 + n) + ?l)) = take (nat ?l) (drop (i + 1 + n) b)"
        using nn by (simp add: nat_add_distrib slice_def)
      have m: "spec_malformedPush b i = (\<not> ?l \<le> int (length b - (i + 1 + n)))"
        using neg False nn by (simp add: spec_malformedPush_def n_def)
      have si: "spec_instr b i = \<lparr> opcode = opcodeArray (b ! i), data = take (nat ?l) (drop (i + 1 + n) b) \<rparr>"
        using neg by (simp add: spec_instr_def n_def)
      have ss: "spec_instrSize b i = 1 + n + nat ?l"
        using neg by (simp add: spec_instrSize_def n_def)
      have "parseScriptTemplate_body opcodeArray b i =
          (if \<not> ?l \<le> int (length b - (i + 1 + n)) then Inl ErrMalformedPush
           else Inr (\<lparr> opcode = opcodeArray (b ! i), data = [] \<rparr>
                       \<lparr> data := take (nat ?l) (drop (i + 1 + n) b) \<rparr>, i + (1 + n + nat ?l)))"
        using neg False 
        by (simp only: parseScriptTemplate_body_def Let_def c1 c2 l c3 c4 c5 if_False if_True option.case)
      then show ?thesis by (simp add: m si ss)
    qed
  qed
qed

lemma bytes_prefixed:
  assumes "op_length (opcode p) = - 1 \<or> op_length (opcode p) = - 2 \<or> op_length (opcode p) = - 4"
    and "length pre = nat (- op_length (opcode p))"
    and "length (data p) = le_nat pre"
  shows "bytes p = Inr (op_value (opcode p) # pre @ data p)"
proof -
  consider (p1) "op_length (opcode p) = - 1" | (p2) "op_length (opcode p) = - 2"
    | (p4) "op_length (opcode p) = - 4" using assms(1) by blast
  then show ?thesis
  proof cases
    case p1
    then obtain x where pre: "pre = [x]" using assms(2) by (cases pre) auto
    show ?thesis using p1 assms(3) unfolding pre
      by (simp add: bytes_def)
  next
    case p2
    then obtain x0 x1 where pre: "pre = [x0, x1]" using assms(2)
      by (auto simp: length_Suc_conv eval_nat_numeral)
    have L: "length (data p) = unat x0 + 2 ^ 8 * unat x1" using assms(3) unfolding pre by simp
    have w: "word_of_nat (length (data p)) = x0" "word_of_nat (length (data p) div 256) = x1"
      using le_bytes16[of x0 x1] unfolding L by simp_all
    have L': "uint x0 + 256 * uint x1 = int (length (data p))" unfolding L by simp
    show ?thesis using p2 unfolding pre
      by (simp add: bytes_def Let_def w L')
  next
    case p4
    then obtain x0 x1 x2 x3 where pre: "pre = [x0, x1, x2, x3]" using assms(2)
      by (auto simp: length_Suc_conv eval_nat_numeral)
    have L: "length (data p) = unat x0 + 2 ^ 8 * unat x1 + 2 ^ 16 * unat x2 + 2 ^ 24 * unat x3"
      using assms(3) unfolding pre by simp
    have w: "word_of_nat (length (data p)) = x0" "word_of_nat (length (data p) div 256) = x1"
       "word_of_nat (length (data p) div 65536) = x2" "word_of_nat (length (data p) div 16777216) = x3"
      using le_bytes32[of x0 x1 x2 x3] unfolding L by simp_all
    have L': "uint x0 + (256 * uint x1 + (65536 * uint x2 + 16777216 * uint x3)) = int (length (data p))"
      unfolding L by simp
    show ?thesis using p4 unfolding pre
      by (simp add: bytes_def Let_def w L')
  qed
qed

lemma cons_take_drop: "i < length b \<Longrightarrow> b ! i # take m (drop (Suc i) b) = take (Suc m) (drop i b)"
  by (simp add: Cons_nth_drop_Suc[symmetric])

lemma spec_ok_bounds:
  assumes "i < length b" "\<not> spec_malformedPush b i"
  shows "0 < spec_instrSize b i" "i + spec_instrSize b i \<le> length b"
proof -
  let ?len = "op_length (opcodeArray (b ! i))"
  have "0 < spec_instrSize b i \<and> i + spec_instrSize b i \<le> length b"
  proof (cases "?len < 0")
    case True
    then show ?thesis using assms
      by (simp add: spec_malformedPush_def spec_instrSize_def Let_def) linarith
  next
    case False
    then have "?len = 1 \<or> 1 < ?len" using opcodeArray_length_cases[of "b ! i"] by linarith
    then show ?thesis using assms False
      by (auto simp add: spec_malformedPush_def spec_instrSize_def Let_def)
  qed
  then show "0 < spec_instrSize b i" "i + spec_instrSize b i \<le> length b" by simp_all
qed

lemma bytes_spec_instr:
  assumes "i < length b" "\<not> spec_malformedPush b i"
  shows "bytes (spec_instr b i) = Inr (take (spec_instrSize b i) (drop i b))"
proof -
  let ?len = "op_length (opcodeArray (b ! i))"
  consider (one) "?len = 1" | (fixed) "1 < ?len"
    | (pre) "?len = - 1 \<or> ?len = - 2 \<or> ?len = - 4"
    using opcodeArray_length_cases[of "b ! i"] by blast
  then show ?thesis
  proof cases
    case one
    then show ?thesis using assms(1)
      by (simp add: bytes_def spec_instr_def spec_instrSize_def take_Suc_conv_app_nth)
  next
    case fixed
    then have "nat ?len = Suc (nat ?len - 1)" by simp
    moreover have "nat ?len - 1 \<le> length b - Suc i"
      using fixed assms by (simp add: spec_malformedPush_def) 
    ultimately show ?thesis using fixed assms(1) cons_take_drop[OF assms(1), of "nat ?len - 1"]
      by (simp add: bytes_def spec_instr_def spec_instrSize_def Let_def)
  next
    case pre
    then have neg: "?len < 0" by auto
    define n where "n = spec_prefixLen b i"
    define l where "l = le_nat (take n (drop (i + 1) b))"
    have spl: "spec_pushLen b i = int l" by (simp add: spec_pushLen_def l_def n_def)
    have n: "nat (- ?len) = n" by (simp add: n_def spec_prefixLen_def)
    have fits: "n \<le> length b - (i + 1)" "l \<le> length b - (i + 1 + n)"
      using assms(2) neg by (simp_all add: spec_malformedPush_def n_def[symmetric] spl)
    have si: "spec_instr b i = \<lparr> opcode = opcodeArray (b ! i), data = take l (drop (i + 1 + n) b) \<rparr>"
      using neg by (simp add: spec_instr_def n_def[symmetric] spl)
    have ss: "spec_instrSize b i = 1 + n + l"
      using neg by (simp add: spec_instrSize_def n_def[symmetric] spl)
    have "bytes (spec_instr b i) =
            Inr (op_value (opcode (spec_instr b i)) # take n (drop (i + 1) b) @ data (spec_instr b i))"
      using pre fits n by (intro bytes_prefixed) (simp_all add: si l_def)
    also have "\<dots> = Inr (b ! i # take n (drop (i + 1) b) @ take l (drop n (drop (i + 1) b)))"
      by (simp add: si add.commute)
    also have "\<dots> = Inr (b ! i # take (n + l) (drop (i + 1) b))"
      by (simp add: take_add)
    also have "\<dots> = Inr (take (spec_instrSize b i) (drop i b))"
      using cons_take_drop[OF assms(1), of "n + l"] by (simp add: ss)
    finally show ?thesis .
  qed
qed

section \<open>The parsing loop\<close>

lemma loop_end:
  "\<not> i < length b \<Longrightarrow> parseScriptTemplate_loop opcodes b i ret = Some (ret, None)"
  by (subst parseScriptTemplate_loop.simps) simp

lemma loop_step_bad:
  "i < length b \<Longrightarrow> spec_malformedPush b i \<Longrightarrow>
   parseScriptTemplate_loop opcodeArray b i ret = Some (ret, Some ErrMalformedPush)"
  by (subst parseScriptTemplate_loop.simps) (simp add: body_spec)

lemma loop_step_ok:
  "i < length b \<Longrightarrow> \<not> spec_malformedPush b i \<Longrightarrow>
   parseScriptTemplate_loop opcodeArray b i ret =
     parseScriptTemplate_loop opcodeArray b (i + spec_instrSize b i) (ret @ [spec_instr b i])"
  by (subst parseScriptTemplate_loop.simps) (simp add: body_spec)

lemma spec_decodes_le: "spec_decodes b i pops \<Longrightarrow> i \<le> length b"
  by (induction rule: spec_decodes.induct) (simp_all add: spec_ok_bounds)

lemma loop_reach:
  "spec_decodes b i pops \<Longrightarrow> parseScript b = parseScriptTemplate_loop opcodeArray b i pops"
proof (induction rule: spec_decodes.induct)
  case start
  show ?case by (simp add: parseScript_def parseScriptTemplate_def)
next
  case (step i pops)
  then show ?case by (simp add: loop_step_ok)
qed

lemma loop_result:
  "spec_decodes b i ret \<Longrightarrow>
   \<exists>pops j. spec_decodes b j pops \<and>
     ((j = length b \<and> parseScriptTemplate_loop opcodeArray b i ret = Some (pops, None)) \<or>
      (j < length b \<and> spec_malformedPush b j \<and>
       parseScriptTemplate_loop opcodeArray b i ret = Some (pops, Some ErrMalformedPush)))"
proof (induction "length b - i" arbitrary: i ret rule: less_induct)
  case less
  have le: "i \<le> length b" using less.prems by (rule spec_decodes_le)
  show ?case
  proof (cases "i < length b")
    case False
    then have "i = length b" using le by simp
    then show ?thesis using less.prems loop_end[OF False] by blast
  next
    case True
    show ?thesis
    proof (cases "spec_malformedPush b i")
      case bad: True
      then show ?thesis using True less.prems loop_step_bad[OF True bad] by blast
    next
      case ok: False
      let ?i' = "i + spec_instrSize b i"
      have "length b - ?i' < length b - i"
        using spec_ok_bounds[OF True ok] True by simp
      moreover have "spec_decodes b ?i' (ret @ [spec_instr b i])"
        using less.prems True ok by (rule spec_decodes.step)
      ultimately show ?thesis
        using less.hyps[of ?i' "ret @ [spec_instr b i]"] loop_step_ok[OF True ok] by simp
    qed
  qed
qed

lemma parseScript_result:
  "\<exists>pops j. spec_decodes b j pops \<and>
     ((j = length b \<and> parseScript b = Some (pops, None)) \<or>
      (j < length b \<and> spec_malformedPush b j \<and>
       parseScript b = Some (pops, Some ErrMalformedPush)))"
  using loop_result[OF spec_decodes.start, of b] loop_reach[OF spec_decodes.start, of b] by simp

lemma unparseScript_loop_snoc:
  "unparseScript_loop (pops @ [p]) acc =
     (case unparseScript_loop pops acc of
        Inl e \<Rightarrow> Inl e
      | Inr s \<Rightarrow> (case bytes p of Inl e \<Rightarrow> Inl e | Inr bs \<Rightarrow> Inr (s @ bs)))"
  by (induction pops arbitrary: acc) (auto split: sum.splits)

lemma spec_decodes_unparse:
  "spec_decodes b i pops \<Longrightarrow> unparseScript pops = Inr (take i b)"
proof (induction rule: spec_decodes.induct)
  case start
  show ?case by (simp add: unparseScript_def)
next
  case (step i pops)
  then show ?case
    by (simp add: unparseScript_def unparseScript_loop_snoc bytes_spec_instr take_add)
qed


section \<open>Sequences of opcodes\<close>

lemma length3: "length xs = 3 \<longleftrightarrow> (\<exists>a b c. xs = [a, b, c])"
  by (auto simp: length_Suc_conv eval_nat_numeral)

lemma length4: "length xs = 4 \<longleftrightarrow> (\<exists>a b c d. xs = [a, b, c, d])"
  by (auto simp: length_Suc_conv eval_nat_numeral)

lemma isScriptHash_map:
  "isScriptHash pops \<longleftrightarrow> map (\<lambda>pop. op_value (opcode pop)) pops = [OP_HASH160, OP_DATA_20, OP_EQUAL]"
  unfolding isScriptHash_def length3 by auto

lemma isStakeScriptHash_map:
  "isStakeScriptHash pops \<longleftrightarrow>
     (\<exists>t. OP_SSTX \<le> t \<and> t \<le> OP_SSTXCHANGE \<and>
          map (\<lambda>pop. op_value (opcode pop)) pops = [t, OP_HASH160, OP_DATA_20, OP_EQUAL])"
  unfolding isStakeScriptHash_def length4 isStakeOpcode_def by auto

lemma isPushOnly_all: "isPushOnly pops \<longleftrightarrow> (\<forall>pop\<in>set pops. op_value (opcode pop) \<le> OP_16)"
  by (induction pops) (auto simp: not_less)



section \<open>The loop of the signature-operation count\<close>

lemma asSmallInt_value:
  assumes "OP_1 \<le> v" "v \<le> OP_16"
  shows "asSmallInt v = spec_smallIntValue v" "1 \<le> asSmallInt v" "asSmallInt v \<le> 16"
proof -
  have v: "81 \<le> uint v" "uint v \<le> 96"
    using assms by (simp_all add: OP_1_def OP_16_def word_le_def)
  have ne: "v \<noteq> OP_0" using v by (auto simp: OP_0_def)
  have "uint (0x50 :: byte) \<le> uint v" using v by simp
  then have "uint (v - 0x50) = uint v - uint (0x50 :: byte)" by (simp only: uint_sub_lem)
  then have a: "asSmallInt v = uint v - 80"
    using ne by (simp add: asSmallInt_def OP_1_def)
  show "asSmallInt v = spec_smallIntValue v" using a by (simp add: spec_smallIntValue_def OP_1_def)
  show "1 \<le> asSmallInt v" "asSmallInt v \<le> 16" using a v by simp_all
qed

lemma getSigOpCount_loop_sum:
  "getSigOpCount_loop pops precise i nSigs =
     nSigs + (\<Sum>k = i..<length pops. spec_sigOps pops precise k)"
proof (induction pops precise i nSigs rule: getSigOpCount_loop.induct)
  case (1 pops precise i nSigs)
  show ?case
  proof (cases "i < length pops")
    case False
    then show ?thesis by simp
  next
    case True
    let ?v = "op_value (opcode (pops ! i))"
    let ?p = "op_value (opcode (pops ! (i - 1)))"
    have step: "(let v = ?v in
             if v = OP_CHECKSIG \<or> v = OP_CHECKSIGVERIFY \<or>
                v = OP_CHECKSIGALT \<or> v = OP_CHECKSIGALTVERIFY
             then nSigs + 1
             else if v = OP_CHECKMULTISIG \<or> v = OP_CHECKMULTISIGVERIFY then
               (if precise \<and> i > 0 \<and> ?p \<ge> OP_1 \<and> ?p \<le> OP_16
                then nSigs + asSmallInt ?p
                else nSigs + MaxPubKeysPerMultiSig)
             else nSigs) = nSigs + spec_sigOps pops precise i"
      by (auto simp: spec_sigOps_def Let_def MaxPubKeysPerMultiSig_def asSmallInt_value(1))
    have "getSigOpCount_loop pops precise i nSigs =
            getSigOpCount_loop pops precise (i + 1) (nSigs + spec_sigOps pops precise i)"
      using True step by (subst getSigOpCount_loop.simps) (simp del: getSigOpCount_loop.simps)
    also have "\<dots> = nSigs + spec_sigOps pops precise i +
                     (\<Sum>k = i + 1..<length pops. spec_sigOps pops precise k)"
      using "1.IH"[OF True] step by (simp del: getSigOpCount_loop.simps)
    also have "\<dots> = nSigs + (\<Sum>k = i..<length pops. spec_sigOps pops precise k)"
      using True by (simp add: sum.atLeast_Suc_lessThan)
    finally show ?thesis .
  qed
qed

lemma getSigOpCount_sum:
  "getSigOpCount pops precise = (\<Sum>i<length pops. spec_sigOps pops precise i)"
  by (simp add: getSigOpCount_def getSigOpCount_loop_sum lessThan_atLeast0 del: getSigOpCount_loop.simps)

lemma spec_sigOps_mono: "spec_sigOps pops True i \<le> spec_sigOps pops False i"
proof -
  have "spec_smallIntValue v \<le> 20" if "OP_1 \<le> v" "v \<le> OP_16" for v
    using asSmallInt_value[OF that] by simp
  then show ?thesis by (auto simp: spec_sigOps_def Let_def)
qed

lemma parseScript_returns: "\<exists>pops err. parseScript b = Some (pops, err)"
  using parseScript_result[of b] by blast

lemmas OP_defs =
  OP_0_def OP_DATA_1_def OP_DATA_20_def OP_DATA_75_def OP_PUSHDATA1_def OP_PUSHDATA2_def
  OP_PUSHDATA4_def OP_1_def OP_16_def OP_RETURN_def OP_EQUAL_def OP_HASH160_def
  OP_CHECKSIG_def OP_CHECKSIGVERIFY_def OP_CHECKMULTISIG_def OP_CHECKMULTISIGVERIFY_def
  OP_SSTX_def OP_SSTXCHANGE_def OP_CHECKSIGALT_def OP_CHECKSIGALTVERIFY_def

section \<open>Canonical pushes\<close>





section \<open>Claims about parsing\<close>

text \<open>
  C1. For every byte buffer \<open>b\<close>, \<open>parseScript b\<close> returns. Either it succeeds, and
  re-encoding the decoded sequence with \<open>unparseScript\<close> gives \<open>b\<close> again; or it fails,
  and re-encoding the partial sequence gives a strict prefix of \<open>b\<close> that ends at the
  offset \<open>i\<close> where the failing instruction begins: decoding reaches \<open>i\<close> with exactly
  this partial sequence, and the push of the instruction at \<open>i\<close> cannot be satisfied.
\<close>

theorem parseScript_unparseScript_roundtrip:
  "\<exists>pops err. parseScript b = Some (pops, err) \<and>
     (case err of
        None \<Rightarrow> unparseScript pops = Inr b
      | Some e \<Rightarrow>
          (\<exists>i. unparseScript pops = Inr (take i b) \<and> strict_prefix (take i b) b \<and>
               spec_decodes b i pops \<and> i < length b \<and> spec_malformedPush b i))"
proof -
  obtain pops j where d: "spec_decodes b j pops"
    and r: "(j = length b \<and> parseScript b = Some (pops, None)) \<or>
      (j < length b \<and> spec_malformedPush b j \<and>
       parseScript b = Some (pops, Some ErrMalformedPush))"
    using parseScript_result[of b] by blast
  have u: "unparseScript pops = Inr (take j b)" using d by (rule spec_decodes_unparse)
  from r show ?thesis
  proof
    assume "j = length b \<and> parseScript b = Some (pops, None)"
    then show ?thesis using u by simp
  next
    assume a: "j < length b \<and> spec_malformedPush b j \<and>
       parseScript b = Some (pops, Some ErrMalformedPush)"
    then have "take j b \<noteq> b" by (metis length_take min.absorb4 nat_neq_iff)
    then have "strict_prefix (take j b) b"
      by (simp add: strict_prefix_def take_is_prefix)
    then show ?thesis using a u d by auto
  qed
qed

text \<open>
  A buffer that parses (OP_1, an OP_PUSHDATA2 of two bytes, an OP_DATA_2) is reproduced;
  for a buffer cut inside an OP_PUSHDATA1 the re-encoding of the partial sequence is a
  proper initial part of it.
\<close>

theorem parseScript_unparseScript_roundtrip_witness:
  "unparseScript
     [\<lparr>opcode = opcodeArray 0x51, data = []\<rparr>,
      \<lparr>opcode = opcodeArray 0x4d, data = [0xaa, 0xbb]\<rparr>,
      \<lparr>opcode = opcodeArray 0x02, data = [0xcc, 0xdd]\<rparr>]
     = Inr [0x51, 0x4d, 0x02, 0x00, 0xaa, 0xbb, 0x02, 0xcc, 0xdd] \<and>
   (\<exists>i. i < length [0x51, 0x4c, 0x03, 0xaa :: byte] \<and>
        unparseScript [\<lparr>opcode = opcodeArray 0x51, data = []\<rparr>]
          = Inr (take i [0x51, 0x4c, 0x03, 0xaa]))"
proof -
  have p: "parseScript [0x51, 0x4d, 0x02, 0x00, 0xaa, 0xbb, 0x02, 0xcc, 0xdd] =
    Some ([\<lparr>opcode = opcodeArray 0x51, data = []\<rparr>,
      \<lparr>opcode = opcodeArray 0x4d, data = [0xaa, 0xbb]\<rparr>,
      \<lparr>opcode = opcodeArray 0x02, data = [0xcc, 0xdd]\<rparr>], None)"
    by code_simp
  have q: "parseScript [0x51, 0x4c, 0x03, 0xaa] =
    Some ([\<lparr>opcode = opcodeArray 0x51, data = []\<rparr>], Some ErrMalformedPush)"
    by code_simp
  have "unparseScript
     [\<lparr>opcode = opcodeArray 0x51, data = []\<rparr>,
      \<lparr>opcode = opcodeArray 0x4d, data = [0xaa, 0xbb]\<rparr>,
      \<lparr>opcode = opcodeArray 0x02, data = [0xcc, 0xdd]\<rparr>]
     = Inr [0x51, 0x4d, 0x02, 0x00, 0xaa, 0xbb, 0x02, 0xcc, 0xdd]"
    using parseScript_unparseScript_roundtrip
            [of "[0x51, 0x4d, 0x02, 0x00, 0xaa, 0xbb, 0x02, 0xcc, 0xdd]"]
    unfolding p by simp
  moreover have "\<exists>i. i < length [0x51, 0x4c, 0x03, 0xaa :: byte] \<and>
        unparseScript [\<lparr>opcode = opcodeArray 0x51, data = []\<rparr>]
          = Inr (take i [0x51, 0x4c, 0x03, 0xaa])"
    using parseScript_unparseScript_roundtrip [of "[0x51, 0x4c, 0x03, 0xaa]"]
    unfolding q by auto
  ultimately show ?thesis by simp
qed

text \<open>
  C2. \<open>parseScript\<close> fails with the malformed-push error, returning the partial
  sequence \<open>pops\<close>, if and only if decoding reaches, with exactly the instructions
  \<open>pops\<close> decoded before it, an instruction whose push cannot be satisfied by the
  rest of the buffer (a fixed push with fewer bytes left than its length, a prefixed
  push whose prefix is cut short or whose declared length is not between 0 and the
  bytes left after the prefix). It always returns and it fails with no other error.
\<close>

theorem parseScript_malformedPush_iff:
  "(parseScript b = Some (pops, Some ErrMalformedPush) \<longleftrightarrow>
      (\<exists>i. spec_decodes b i pops \<and> i < length b \<and> spec_malformedPush b i)) \<and>
   parseScript b \<noteq> None \<and> parseScript b \<noteq> Some (pops, Some ErrInternal)"
proof -
  obtain pops' j where d: "spec_decodes b j pops'"
    and r: "(j = length b \<and> parseScript b = Some (pops', None)) \<or>
      (j < length b \<and> spec_malformedPush b j \<and>
       parseScript b = Some (pops', Some ErrMalformedPush))"
    using parseScript_result[of b] by blast
  have "\<exists>i. spec_decodes b i pops \<and> i < length b \<and> spec_malformedPush b i"
    if "parseScript b = Some (pops, Some ErrMalformedPush)"
    using that d r by auto
  moreover have "parseScript b = Some (pops, Some ErrMalformedPush)"
    if "\<exists>i. spec_decodes b i pops \<and> i < length b \<and> spec_malformedPush b i"
    using that loop_reach loop_step_bad by auto
  moreover have "parseScript b \<noteq> None" "parseScript b \<noteq> Some (pops, Some ErrInternal)"
    using r by auto
  ultimately show ?thesis by blast
qed

text \<open>
  The scenario of the specification: OP_DATA_5 followed by two bytes only; the push at
  offset 0 cannot be satisfied, so parsing fails there with an empty partial sequence.
  After OP_1, an OP_PUSHDATA2 that declares five bytes where one is left: parsing fails
  at offset 1 and returns OP_1 alone. The same buffer declaring one byte parses, and no
  offset that decoding reaches is malformed.
\<close>

theorem parseScript_malformedPush_iff_witness:
  "spec_decodes [0x05, 0xaa, 0xbb] 0 [] \<and> spec_malformedPush [0x05, 0xaa, 0xbb] 0 \<and>
   parseScript [0x05, 0xaa, 0xbb] = Some ([], Some ErrMalformedPush) \<and>
   spec_decodes [0x51, 0x4d, 0x05, 0x00, 0xaa] 1 [\<lparr>opcode = opcodeArray 0x51, data = []\<rparr>] \<and>
   spec_malformedPush [0x51, 0x4d, 0x05, 0x00, 0xaa] 1 \<and>
   parseScript [0x51, 0x4d, 0x05, 0x00, 0xaa] =
     Some ([\<lparr>opcode = opcodeArray 0x51, data = []\<rparr>], Some ErrMalformedPush) \<and>
   \<not> (\<exists>i. spec_decodes [0x51, 0x4d, 0x01, 0x00, 0xaa] i
                [\<lparr>opcode = opcodeArray 0x51, data = []\<rparr>,
                 \<lparr>opcode = opcodeArray 0x4d, data = [0xaa]\<rparr>] \<and>
            i < length [0x51, 0x4d, 0x01, 0x00, 0xaa :: byte] \<and>
            spec_malformedPush [0x51, 0x4d, 0x01, 0x00, 0xaa] i)"
proof -
  let ?a = "[0x05, 0xaa, 0xbb] :: byte list"
  let ?b = "[0x51, 0x4d, 0x05, 0x00, 0xaa] :: byte list"
  let ?c = "[0x51, 0x4d, 0x01, 0x00, 0xaa] :: byte list"
  have da: "spec_decodes ?a 0 []" by (rule spec_decodes.start)
  have ma: "spec_malformedPush ?a 0"
    by (simp add: spec_malformedPush_def opcodeArray_def OP_defs)
  have "\<exists>i. spec_decodes ?a i [] \<and> i < length ?a \<and> spec_malformedPush ?a i"
    using da ma by (intro exI[of _ 0]) simp
  then have pa: "parseScript ?a = Some ([], Some ErrMalformedPush)"
    using parseScript_malformedPush_iff[of ?a "[]"] by simp
  have "spec_decodes ?b (0 + spec_instrSize ?b 0) ([] @ [spec_instr ?b 0])"
    by (rule spec_decodes.step[OF spec_decodes.start])
       (simp_all add: spec_malformedPush_def opcodeArray_def OP_defs)
  then have db: "spec_decodes ?b 1 [\<lparr>opcode = opcodeArray 0x51, data = []\<rparr>]"
    by (simp add: spec_instrSize_def spec_instr_def opcodeArray_def OP_defs)
  have mb: "spec_malformedPush ?b 1"
    by (simp add: spec_malformedPush_def spec_prefixLen_def spec_pushLen_def opcodeArray_def OP_defs)
  have "\<exists>i. spec_decodes ?b i [\<lparr>opcode = opcodeArray 0x51, data = []\<rparr>] \<and>
            i < length ?b \<and> spec_malformedPush ?b i"
    using db mb by (intro exI[of _ 1]) simp
  then have pb: "parseScript ?b = Some ([\<lparr>opcode = opcodeArray 0x51, data = []\<rparr>], Some ErrMalformedPush)"
    using parseScript_malformedPush_iff[of ?b "[\<lparr>opcode = opcodeArray 0x51, data = []\<rparr>]"] by simp
  have pc: "parseScript ?c = Some ([\<lparr>opcode = opcodeArray 0x51, data = []\<rparr>,
                 \<lparr>opcode = opcodeArray 0x4d, data = [0xaa]\<rparr>], None)"
    by code_simp
  have nc: "\<not> (\<exists>i. spec_decodes ?c i
                [\<lparr>opcode = opcodeArray 0x51, data = []\<rparr>,
                 \<lparr>opcode = opcodeArray 0x4d, data = [0xaa]\<rparr>] \<and>
            i < length ?c \<and> spec_malformedPush ?c i)"
    using parseScript_malformedPush_iff[of ?c "[\<lparr>opcode = opcodeArray 0x51, data = []\<rparr>,
                 \<lparr>opcode = opcodeArray 0x4d, data = [0xaa]\<rparr>]"] unfolding pc by simp
  show ?thesis using da ma pa db mb pb nc by blast
qed

section \<open>Claims about classification\<close>

text \<open>
  C5. \<open>IsUnspendable\<close> always returns, and it returns true exactly when the amount is
  zero, or the script fails to parse, or the decoded sequence is not empty and its
  first opcode is OP_RETURN. In particular it is false for a nonzero amount and a
  script that parses to a script-hash pattern (plain or stake-tagged).
\<close>

theorem IsUnspendable_iff:
  "\<exists>pops err. parseScript pkScript = Some (pops, err) \<and>
     IsUnspendable amount pkScript =
       Some (amount = 0 \<or> err \<noteq> None \<or>
             (pops \<noteq> [] \<and> op_value (opcode (hd pops)) = OP_RETURN)) \<and>
     (amount \<noteq> 0 \<and> err = None \<and> isAnyKindOfScriptHash pops
        \<longrightarrow> IsUnspendable amount pkScript = Some False)"
proof -
  obtain pops err where p: "parseScript pkScript = Some (pops, err)"
    using parseScript_returns by blast
  have hd: "pops ! 0 = hd pops" if "pops \<noteq> []" using that by (simp add: hd_conv_nth)
  have u: "IsUnspendable amount pkScript =
       Some (amount = 0 \<or> err \<noteq> None \<or>
             (pops \<noteq> [] \<and> op_value (opcode (hd pops)) = OP_RETURN))"
    using p hd by (auto simp: IsUnspendable_def)
  have "op_value (opcode (hd pops)) \<noteq> OP_RETURN" if "isAnyKindOfScriptHash pops"
    using that
    by (auto simp: isAnyKindOfScriptHash_def isScriptHash_map isStakeScriptHash_map OP_defs
        word_le_nat_alt)
  then show ?thesis using p u by auto
qed

text \<open>
  A zero amount; a nonzero amount with a script that starts with OP_RETURN; a nonzero
  amount with a script that does not parse; a nonzero amount with a pay-to-script-hash
  script.
\<close>

theorem IsUnspendable_iff_witness:
  "IsUnspendable 0 [0x51] = Some True \<and>
   IsUnspendable 1 [0x6a, 0x51] = Some True \<and>
   IsUnspendable 1 [0x05, 0xaa] = Some True \<and>
   IsUnspendable 1 [0xa9, 0x14, 0,0,0,0,0,0,0,0,0,0,0,0,0,0,0,0,0,0,0,0, 0x87] = Some False"
proof -
  let ?pk = "[0xa9, 0x14, 0,0,0,0,0,0,0,0,0,0,0,0,0,0,0,0,0,0,0,0, 0x87] :: byte list"
  let ?pops = "[\<lparr>opcode = opcodeArray 0xa9, data = []\<rparr>,
                \<lparr>opcode = opcodeArray 0x14, data = [0,0,0,0,0,0,0,0,0,0,0,0,0,0,0,0,0,0,0,0]\<rparr>,
                \<lparr>opcode = opcodeArray 0x87, data = []\<rparr>]"
  have pk: "parseScript ?pk = Some (?pops, None)" by code_simp
  have sh: "isAnyKindOfScriptHash ?pops" by (simp add: isAnyKindOfScriptHash_def isScriptHash_def OP_defs)
  have r: "parseScript [0x6a, 0x51] =
     Some ([\<lparr>opcode = opcodeArray 0x6a, data = []\<rparr>, \<lparr>opcode = opcodeArray 0x51, data = []\<rparr>], None)"
    by code_simp
  have m: "parseScript [0x05, 0xaa] = Some ([], Some ErrMalformedPush)" by code_simp
  have "IsUnspendable 0 [0x51] = Some True"
    using IsUnspendable_iff[of "[0x51]" 0] by auto
  moreover have "IsUnspendable 1 [0x6a, 0x51] = Some True"
    using IsUnspendable_iff[of "[0x6a, 0x51]" 1] unfolding r by (simp add: OP_defs)
  moreover have "IsUnspendable 1 [0x05, 0xaa] = Some True"
    using IsUnspendable_iff[of "[0x05, 0xaa]" 1] unfolding m by simp
  moreover have "IsUnspendable 1 ?pk = Some False"
    using IsUnspendable_iff[of ?pk 1] sh unfolding pk by (simp add: OP_defs)
  ultimately show ?thesis by simp
qed

text \<open>
  C6. \<open>IsPushOnlyScript\<close> and \<open>IsPayToScriptHash\<close> return a boolean for every byte
  buffer. Both are false when the buffer does not parse. When it parses,
  \<open>IsPushOnlyScript\<close> is true exactly when the opcode of every instruction is at most
  OP_16 (so OP_RESERVED, which lies below OP_16, counts as a push), and
  \<open>IsPayToScriptHash\<close> is \<open>isScriptHash\<close> of the decoded sequence.
\<close>

theorem push_only_and_script_hash_total:
  "\<exists>pops err. parseScript b = Some (pops, err) \<and>
     IsPushOnlyScript b =
       Some (err = None \<and> (\<forall>pop\<in>set pops. op_value (opcode pop) \<le> OP_16)) \<and>
     IsPayToScriptHash b = Some (err = None \<and> isScriptHash pops)"
proof -
  obtain pops err where p: "parseScript b = Some (pops, err)"
    using parseScript_returns by blast
  then show ?thesis
    by (auto simp: IsPushOnlyScript_def IsPayToScriptHash_def isPushOnly_all)
qed

text \<open>
  OP_RESERVED, a one-byte push and OP_16 are push-only; OP_NOP after OP_1 is not; a
  buffer cut inside the prefix of an OP_PUSHDATA2 is neither push-only nor
  pay-to-script-hash.
\<close>

theorem push_only_and_script_hash_total_witness:
  "IsPushOnlyScript [0x50, 0x01, 0xff, 0x60] = Some True \<and>
   IsPushOnlyScript [0x51, 0x61] = Some False \<and>
   IsPushOnlyScript [0x4d, 0x01] = Some False \<and>
   IsPayToScriptHash [0x4d, 0x01] = Some False"
proof -
  have a: "parseScript [0x50, 0x01, 0xff, 0x60] =
     Some ([\<lparr>opcode = opcodeArray 0x50, data = []\<rparr>, \<lparr>opcode = opcodeArray 0x01, data = [0xff]\<rparr>,
            \<lparr>opcode = opcodeArray 0x60, data = []\<rparr>], None)" by code_simp
  have b: "parseScript [0x51, 0x61] =
     Some ([\<lparr>opcode = opcodeArray 0x51, data = []\<rparr>, \<lparr>opcode = opcodeArray 0x61, data = []\<rparr>], None)"
    by code_simp
  have c: "parseScript [0x4d, 0x01] = Some ([], Some ErrMalformedPush)" by code_simp
  have "IsPushOnlyScript [0x50, 0x01, 0xff, 0x60] = Some True"
    using push_only_and_script_hash_total[of "[0x50, 0x01, 0xff, 0x60]"] unfolding a
    by (simp add: OP_defs)
  moreover have "IsPushOnlyScript [0x51, 0x61] = Some False"
    using push_only_and_script_hash_total[of "[0x51, 0x61]"] unfolding b
    by (simp add: OP_defs)
  moreover have "IsPushOnlyScript [0x4d, 0x01] = Some False \<and> IsPayToScriptHash [0x4d, 0x01] = Some False"
    using push_only_and_script_hash_total[of "[0x4d, 0x01]"] unfolding c
    by simp
  ultimately show ?thesis by simp
qed

text \<open>
  C7. \<open>isScriptHash\<close> holds exactly of the sequences of three instructions whose opcodes
  are OP_HASH160, OP_DATA_20, OP_EQUAL in this order; \<open>isStakeScriptHash\<close> holds exactly
  of the sequences of four instructions whose first opcode lies in the range
  OP_SSTX .. OP_SSTXCHANGE and whose other opcodes are OP_HASH160, OP_DATA_20, OP_EQUAL;
  \<open>isAnyKindOfScriptHash\<close> is the disjunction of the two.
\<close>

theorem script_hash_patterns:
  "(isScriptHash pops \<longleftrightarrow>
      map (\<lambda>pop. op_value (opcode pop)) pops = [OP_HASH160, OP_DATA_20, OP_EQUAL]) \<and>
   (isStakeScriptHash pops \<longleftrightarrow>
      (\<exists>t. OP_SSTX \<le> t \<and> t \<le> OP_SSTXCHANGE \<and>
           map (\<lambda>pop. op_value (opcode pop)) pops = [t, OP_HASH160, OP_DATA_20, OP_EQUAL])) \<and>
   (isAnyKindOfScriptHash pops \<longleftrightarrow> isScriptHash pops \<or> isStakeScriptHash pops)"
  using isScriptHash_map isStakeScriptHash_map by (simp add: isAnyKindOfScriptHash_def)

text \<open>
  The plain pattern; the pattern tagged with OP_SSGEN; and four instructions whose first
  opcode, OP_CHECKSIGALT, lies just above the stake-tag range.
\<close>

theorem script_hash_patterns_witness:
  "isScriptHash [\<lparr>opcode = opcodeArray 0xa9, data = []\<rparr>,
                 \<lparr>opcode = opcodeArray 0x14, data = []\<rparr>,
                 \<lparr>opcode = opcodeArray 0x87, data = []\<rparr>] \<and>
   isStakeScriptHash [\<lparr>opcode = opcodeArray 0xbb, data = []\<rparr>,
                 \<lparr>opcode = opcodeArray 0xa9, data = []\<rparr>,
                 \<lparr>opcode = opcodeArray 0x14, data = []\<rparr>,
                 \<lparr>opcode = opcodeArray 0x87, data = []\<rparr>] \<and>
   \<not> isAnyKindOfScriptHash [\<lparr>opcode = opcodeArray 0xbe, data = []\<rparr>,
                 \<lparr>opcode = opcodeArray 0xa9, data = []\<rparr>,
                 \<lparr>opcode = opcodeArray 0x14, data = []\<rparr>,
                 \<lparr>opcode = opcodeArray 0x87, data = []\<rparr>]"
proof -
  have "isScriptHash [\<lparr>opcode = opcodeArray 0xa9, data = []\<rparr>,
                 \<lparr>opcode = opcodeArray 0x14, data = []\<rparr>,
                 \<lparr>opcode = opcodeArray 0x87, data = []\<rparr>]"
    using script_hash_patterns[of "[\<lparr>opcode = opcodeArray 0xa9, data = []\<rparr>,
                 \<lparr>opcode = opcodeArray 0x14, data = []\<rparr>,
                 \<lparr>opcode = opcodeArray 0x87, data = []\<rparr>]"]
    by (simp add: OP_defs)
  moreover have "isStakeScriptHash [\<lparr>opcode = opcodeArray 0xbb, data = []\<rparr>,
                 \<lparr>opcode = opcodeArray 0xa9, data = []\<rparr>,
                 \<lparr>opcode = opcodeArray 0x14, data = []\<rparr>,
                 \<lparr>opcode = opcodeArray 0x87, data = []\<rparr>]"
    using script_hash_patterns[of "[\<lparr>opcode = opcodeArray 0xbb, data = []\<rparr>,
                 \<lparr>opcode = opcodeArray 0xa9, data = []\<rparr>,
                 \<lparr>opcode = opcodeArray 0x14, data = []\<rparr>,
                 \<lparr>opcode = opcodeArray 0x87, data = []\<rparr>]"]
    by (simp add: OP_defs)
  moreover have "\<not> isAnyKindOfScriptHash [\<lparr>opcode = opcodeArray 0xbe, data = []\<rparr>,
                 \<lparr>opcode = opcodeArray 0xa9, data = []\<rparr>,
                 \<lparr>opcode = opcodeArray 0x14, data = []\<rparr>,
                 \<lparr>opcode = opcodeArray 0x87, data = []\<rparr>]"
    using script_hash_patterns[of "[\<lparr>opcode = opcodeArray 0xbe, data = []\<rparr>,
                 \<lparr>opcode = opcodeArray 0xa9, data = []\<rparr>,
                 \<lparr>opcode = opcodeArray 0x14, data = []\<rparr>,
                 \<lparr>opcode = opcodeArray 0x87, data = []\<rparr>]"]
    by (simp add: OP_defs)
  ultimately show ?thesis by simp
qed

text \<open>
  C10. For the empty byte buffer, parsing succeeds with the empty sequence, the
  push-only predicate holds of that sequence, and \<open>IsPushOnlyScript\<close> returns true.
\<close>

theorem IsPushOnlyScript_empty:
  "parseScript [] = Some ([], None) \<and> isPushOnly [] \<and> IsPushOnlyScript [] = Some True"
  by (simp add: IsPushOnlyScript_def parseScript_def parseScriptTemplate_def loop_end)

section \<open>Claims about removal by data\<close>




section \<open>Claims about signature operations\<close>

text \<open>
  C3. For every sequence and both values of \<open>precise\<close>, \<open>getSigOpCount\<close> is the sum over
  the positions of the sequence of what each instruction contributes: 1 for OP_CHECKSIG,
  OP_CHECKSIGVERIFY, OP_CHECKSIGALT and OP_CHECKSIGALTVERIFY; for OP_CHECKMULTISIG and
  OP_CHECKMULTISIGVERIFY the value of the instruction just before when \<open>precise\<close> is
  true and that instruction is one of OP_1 .. OP_16, and \<open>MaxPubKeysPerMultiSig\<close> = 20
  otherwise; 0 for every other opcode. The function is total: it has no failure.
\<close>

theorem getSigOpCount_spec:
  "getSigOpCount pops precise = (\<Sum>i<length pops. spec_sigOps pops precise i)"
proof -
  have "getSigOpCount pops precise =
          0 + (\<Sum>k = 0..<length pops. spec_sigOps pops precise k)"
    unfolding getSigOpCount_def by (rule getSigOpCount_loop_sum)
  then show ?thesis by (simp add: lessThan_atLeast0)
qed

text \<open>
  OP_3, OP_CHECKMULTISIG, OP_CHECKSIG, OP_CHECKMULTISIGVERIFY: precisely 3 + 1 + 20,
  and 20 + 1 + 20 otherwise.
\<close>

theorem getSigOpCount_spec_witness:
  "(\<Sum>i<length [\<lparr>opcode = opcodeArray 0x53, data = []\<rparr>, \<lparr>opcode = opcodeArray 0xae, data = []\<rparr>,
      \<lparr>opcode = opcodeArray 0xac, data = []\<rparr>, \<lparr>opcode = opcodeArray 0xaf, data = []\<rparr>].
      spec_sigOps [\<lparr>opcode = opcodeArray 0x53, data = []\<rparr>, \<lparr>opcode = opcodeArray 0xae, data = []\<rparr>,
      \<lparr>opcode = opcodeArray 0xac, data = []\<rparr>, \<lparr>opcode = opcodeArray 0xaf, data = []\<rparr>] True i) = 24 \<and>
   (\<Sum>i<length [\<lparr>opcode = opcodeArray 0x53, data = []\<rparr>, \<lparr>opcode = opcodeArray 0xae, data = []\<rparr>,
      \<lparr>opcode = opcodeArray 0xac, data = []\<rparr>, \<lparr>opcode = opcodeArray 0xaf, data = []\<rparr>].
      spec_sigOps [\<lparr>opcode = opcodeArray 0x53, data = []\<rparr>, \<lparr>opcode = opcodeArray 0xae, data = []\<rparr>,
      \<lparr>opcode = opcodeArray 0xac, data = []\<rparr>, \<lparr>opcode = opcodeArray 0xaf, data = []\<rparr>] False i) = 41"
proof -
  have t: "getSigOpCount
     [\<lparr>opcode = opcodeArray 0x53, data = []\<rparr>, \<lparr>opcode = opcodeArray 0xae, data = []\<rparr>,
      \<lparr>opcode = opcodeArray 0xac, data = []\<rparr>, \<lparr>opcode = opcodeArray 0xaf, data = []\<rparr>] True = 24"
    by code_simp
  have f: "getSigOpCount
     [\<lparr>opcode = opcodeArray 0x53, data = []\<rparr>, \<lparr>opcode = opcodeArray 0xae, data = []\<rparr>,
      \<lparr>opcode = opcodeArray 0xac, data = []\<rparr>, \<lparr>opcode = opcodeArray 0xaf, data = []\<rparr>] False = 41"
    by code_simp
  show ?thesis
    by (simp only: getSigOpCount_spec[symmetric] t f)
qed

text \<open>
  C9. For every sequence that contains a multi-key signature check which is not
  immediately preceded by a small-integer push (it is the first instruction, or the
  opcode before it is not one of OP_1 .. OP_16), the count with \<open>precise\<close> false is at
  least the count with \<open>precise\<close> true.
\<close>

theorem getSigOpCount_precise_le_maximal:
  assumes "\<exists>i<length pops.
             op_value (opcode (pops ! i)) \<in> {OP_CHECKMULTISIG, OP_CHECKMULTISIGVERIFY} \<and>
             (i = 0 \<or> op_value (opcode (pops ! (i - 1))) \<notin> {OP_1 .. OP_16})"
  shows "getSigOpCount pops False \<ge> getSigOpCount pops True"
proof -
  have "(\<Sum>i<length pops. spec_sigOps pops True i) \<le>
        (\<Sum>i<length pops. spec_sigOps pops False i)"
    by (rule sum_mono) (rule spec_sigOps_mono)
  then show ?thesis by (simp only: getSigOpCount_sum)
qed

text \<open>
  OP_CHECKSIG followed by OP_CHECKMULTISIG: the multi-key check at position 1 has no
  small integer before it, and the two counts are compared.
\<close>

theorem getSigOpCount_precise_le_maximal_witness:
  "(\<exists>i<length [\<lparr>opcode = opcodeArray 0xac, data = []\<rparr>, \<lparr>opcode = opcodeArray 0xae, data = []\<rparr>].
      op_value (opcode ([\<lparr>opcode = opcodeArray 0xac, data = []\<rparr>,
                         \<lparr>opcode = opcodeArray 0xae, data = []\<rparr>] ! i))
         \<in> {OP_CHECKMULTISIG, OP_CHECKMULTISIGVERIFY} \<and>
      (i = 0 \<or> op_value (opcode ([\<lparr>opcode = opcodeArray 0xac, data = []\<rparr>,
                                  \<lparr>opcode = opcodeArray 0xae, data = []\<rparr>] ! (i - 1)))
                  \<notin> {OP_1 .. OP_16})) \<and>
   getSigOpCount [\<lparr>opcode = opcodeArray 0xac, data = []\<rparr>,
                  \<lparr>opcode = opcodeArray 0xae, data = []\<rparr>] False
     \<ge> getSigOpCount [\<lparr>opcode = opcodeArray 0xac, data = []\<rparr>,
                       \<lparr>opcode = opcodeArray 0xae, data = []\<rparr>] True"
proof -
  have h: "\<exists>i<length [\<lparr>opcode = opcodeArray 0xac, data = []\<rparr>, \<lparr>opcode = opcodeArray 0xae, data = []\<rparr>].
      op_value (opcode ([\<lparr>opcode = opcodeArray 0xac, data = []\<rparr>,
                         \<lparr>opcode = opcodeArray 0xae, data = []\<rparr>] ! i))
         \<in> {OP_CHECKMULTISIG, OP_CHECKMULTISIGVERIFY} \<and>
      (i = 0 \<or> op_value (opcode ([\<lparr>opcode = opcodeArray 0xac, data = []\<rparr>,
                                  \<lparr>opcode = opcodeArray 0xae, data = []\<rparr>] ! (i - 1)))
                  \<notin> {OP_1 .. OP_16})"
    by (intro exI[of _ 1]) (simp add: OP_defs)
  from getSigOpCount_precise_le_maximal[OF h] h show ?thesis by blast
qed

text \<open>
  C4. \<open>GetPreciseSigOpCount\<close> always returns. It decodes \<open>scriptPubKey\<close> and uses the
  sequence decoded so far even when parsing fails. If \<open>bip16\<close> is false or that
  sequence is not the script-hash pattern, the result is its precise count. Otherwise
  the result is 0 when \<open>scriptSig\<close> fails to parse (its partial sequence is not used),
  or parses to a sequence that is not push-only or is empty, or when the data of its
  last instruction is empty; otherwise that data is decoded as the redeem script, again
  using the partial sequence on failure, and the result is its precise count.
\<close>

theorem GetPreciseSigOpCount_cases:
  "\<exists>pops perr. parseScript scriptPubKey = Some (pops, perr) \<and>
     (if \<not> bip16 \<or> \<not> isScriptHash pops
      then GetPreciseSigOpCount scriptSig scriptPubKey bip16 = Some (getSigOpCount pops True)
      else
        (\<exists>sigPops serr. parseScript scriptSig = Some (sigPops, serr) \<and>
           (if serr \<noteq> None \<or> \<not> (\<forall>pop\<in>set sigPops. op_value (opcode pop) \<le> OP_16) \<or>
               sigPops = [] \<or> data (last sigPops) = []
            then GetPreciseSigOpCount scriptSig scriptPubKey bip16 = Some 0
            else
              (\<exists>shPops sherr. parseScript (data (last sigPops)) = Some (shPops, sherr) \<and>
                 GetPreciseSigOpCount scriptSig scriptPubKey bip16 =
                   Some (getSigOpCount shPops True)))))"
proof -
  obtain pops perr where p: "parseScript scriptPubKey = Some (pops, perr)"
    using parseScript_returns by blast
  obtain sigPops serr where s: "parseScript scriptSig = Some (sigPops, serr)"
    using parseScript_returns by blast
  obtain shPops sherr where h: "parseScript (data (last sigPops)) = Some (shPops, sherr)"
    using parseScript_returns by blast
  have l: "sigPops ! (length sigPops - 1) = last sigPops" if "sigPops \<noteq> []"
    using that by (simp add: last_conv_nth)
  show ?thesis
    using p s h l
    by (auto simp: GetPreciseSigOpCount_def isPushOnly_all Let_def)
qed

text \<open>
  Against a pay-to-script-hash output: a signature script pushing the redeem script
  OP_3 OP_CHECKMULTISIG counts 3; the empty signature script counts 0; a signature
  script that fails to parse after pushing OP_CHECKMULTISIG counts 0, not 20. A public
  key script that fails to parse after OP_3 OP_CHECKMULTISIG still counts 3.
\<close>

theorem GetPreciseSigOpCount_cases_witness:
  "GetPreciseSigOpCount [0x02, 0x53, 0xae]
     [0xa9, 0x14, 0,0,0,0,0,0,0,0,0,0,0,0,0,0,0,0,0,0,0,0, 0x87] True = Some 3 \<and>
   GetPreciseSigOpCount []
     [0xa9, 0x14, 0,0,0,0,0,0,0,0,0,0,0,0,0,0,0,0,0,0,0,0, 0x87] True = Some 0 \<and>
   GetPreciseSigOpCount [0x01, 0xae, 0x02]
     [0xa9, 0x14, 0,0,0,0,0,0,0,0,0,0,0,0,0,0,0,0,0,0,0,0, 0x87] True = Some 0 \<and>
   GetPreciseSigOpCount [0x4c, 0x05, 0x53, 0xae] [0x53, 0xae, 0x02] True = Some 3"
proof -
  let ?pk = "[0xa9, 0x14, 0,0,0,0,0,0,0,0,0,0,0,0,0,0,0,0,0,0,0,0, 0x87] :: byte list"
  let ?pops = "[\<lparr>opcode = opcodeArray 0xa9, data = []\<rparr>,
                \<lparr>opcode = opcodeArray 0x14, data = [0,0,0,0,0,0,0,0,0,0,0,0,0,0,0,0,0,0,0,0]\<rparr>,
                \<lparr>opcode = opcodeArray 0x87, data = []\<rparr>]"
  let ?redeem = "[\<lparr>opcode = opcodeArray 0x53, data = []\<rparr>, \<lparr>opcode = opcodeArray 0xae, data = []\<rparr>]"
  have pk: "parseScript ?pk = Some (?pops, None)" by code_simp
  have sh: "isScriptHash ?pops" by (simp add: isScriptHash_def OP_defs)
  have sg: "parseScript [0x02, 0x53, 0xae] =
              Some ([\<lparr>opcode = opcodeArray 0x02, data = [0x53, 0xae]\<rparr>], None)" by code_simp
  have rd: "parseScript [0x53, 0xae] = Some (?redeem, None)" by code_simp
  have em: "parseScript [] = Some ([], None)" by code_simp
  have cut: "parseScript [0x01, 0xae, 0x02] =
              Some ([\<lparr>opcode = opcodeArray 0x01, data = [0xae]\<rparr>], Some ErrMalformedPush)"
    by code_simp
  have bad: "parseScript [0x53, 0xae, 0x02] = Some (?redeem, Some ErrMalformedPush)" by code_simp
  have nsh: "\<not> isScriptHash ?redeem" by (simp add: isScriptHash_def)
  have c: "getSigOpCount ?redeem True = 3" by code_simp
  have "GetPreciseSigOpCount [0x02, 0x53, 0xae] ?pk True = Some 3"
    using GetPreciseSigOpCount_cases[of ?pk True "[0x02, 0x53, 0xae]"] sh
    unfolding pk by (simp add: sg rd c OP_defs)
  moreover have "GetPreciseSigOpCount [] ?pk True = Some 0"
    using GetPreciseSigOpCount_cases[of ?pk True "[]"] sh
    unfolding pk by (simp add: em)
  moreover have "GetPreciseSigOpCount [0x01, 0xae, 0x02] ?pk True = Some 0"
    using GetPreciseSigOpCount_cases[of ?pk True "[0x01, 0xae, 0x02]"] sh
    unfolding pk by (simp add: cut)
  moreover have "GetPreciseSigOpCount [0x4c, 0x05, 0x53, 0xae] [0x53, 0xae, 0x02] True = Some 3"
    using GetPreciseSigOpCount_cases[of "[0x53, 0xae, 0x02]" True "[0x4c, 0x05, 0x53, 0xae]"] nsh
    unfolding bad by (simp add: c)
  ultimately show ?thesis by simp
qed

end
